theory Spec2Isabelle
  imports Main "HOL-Library.Word"
begin

section \<open>The circuit breaker of gobreaker.go\<close>

text \<open>
  The breaker is a Go struct guarded by one mutex. Every method takes the lock for its
  whole body, so each method call is one atomic step on the struct: a function from the
  struct (and the clock reading \<open>time.Now()\<close> taken inside the lock) to the updated
  struct and the returned values.
\<close>

subsection \<open>Machine integers and time\<close>

type_synonym u32 = "32 word"
type_synonym u64 = "64 word"

text \<open>
  \<open>time.Time\<close> is an instant and \<open>time.Duration\<close> a signed number of nanoseconds.
  An instant is modelled by its distance in nanoseconds from Go's zero instant, so that
  \<open>IsZero\<close> is a comparison with 0, \<open>Before\<close> is \<open><\<close> and \<open>Add\<close> is addition.
\<close>

type_synonym Time = int
type_synonym Duration = int

definition zero_Time :: Time where
  "zero_Time = 0"

definition IsZero :: "Time \<Rightarrow> bool" where
  "IsZero t = (t = zero_Time)"

definition Before :: "Time \<Rightarrow> Time \<Rightarrow> bool" where
  "Before t u = (t < u)"

definition Add :: "Time \<Rightarrow> Duration \<Rightarrow> Time" where
  "Add t d = t + d"

definition Second :: Duration where
  "Second = 1000000000"

subsection \<open>States, errors, counts\<close>

datatype State = StateClosed | StateHalfOpen | StateOpen

datatype go_error = ErrTooManyRequests | ErrOpenState | RequestError string

record Counts =
  Requests :: u32
  TotalSuccesses :: u32
  TotalFailures :: u32
  ConsecutiveSuccesses :: u32
  ConsecutiveFailures :: u32

definition Counts_onRequest :: "Counts \<Rightarrow> Counts" where
  "Counts_onRequest c = c\<lparr>Requests := Requests c + 1\<rparr>"

definition Counts_onSuccess :: "Counts \<Rightarrow> Counts" where
  "Counts_onSuccess c =
     c\<lparr>TotalSuccesses := TotalSuccesses c + 1,
       ConsecutiveSuccesses := ConsecutiveSuccesses c + 1,
       ConsecutiveFailures := 0\<rparr>"

definition Counts_onFailure :: "Counts \<Rightarrow> Counts" where
  "Counts_onFailure c =
     c\<lparr>TotalFailures := TotalFailures c + 1,
       ConsecutiveFailures := ConsecutiveFailures c + 1,
       ConsecutiveSuccesses := 0\<rparr>"

definition Counts_clear :: "Counts \<Rightarrow> Counts" where
  "Counts_clear c =
     c\<lparr>Requests := 0, TotalSuccesses := 0, TotalFailures := 0,
       ConsecutiveSuccesses := 0, ConsecutiveFailures := 0\<rparr>"

definition zero_Counts :: Counts where
  "zero_Counts =
     \<lparr>Requests = 0, TotalSuccesses = 0, TotalFailures = 0,
      ConsecutiveSuccesses = 0, ConsecutiveFailures = 0\<rparr>"

subsection \<open>Settings and the breaker\<close>

text \<open>
  A nil function field of \<open>Settings\<close> is \<open>None\<close>. The state-change hook is an opaque
  procedure of the caller: what the breaker does with it is to call it, so the hook is
  modelled by whether it is set, and each call is appended with its three arguments to
  the field \<open>notified\<close> of the breaker.
\<close>

record Settings =
  Name :: string
  MaxRequests :: u32
  Interval :: Duration
  Timeout :: Duration
  ReadyToTrip :: "(Counts \<Rightarrow> bool) option"
  OnStateChange :: bool
  IsSuccessful :: "(go_error option \<Rightarrow> bool) option"

record CircuitBreaker =
  name :: string
  maxRequests :: u32
  interval :: Duration
  timeout :: Duration
  readyToTrip :: "Counts \<Rightarrow> bool"
  isSuccessful :: "go_error option \<Rightarrow> bool"
  onStateChange :: bool
  state :: State
  generation :: u64
  counts :: Counts
  expiry :: Time
  notified :: "(string \<times> State \<times> State) list"

definition defaultInterval :: Duration where
  "defaultInterval = 0 * Second"

definition defaultTimeout :: Duration where
  "defaultTimeout = 60 * Second"

definition defaultReadyToTrip :: "Counts \<Rightarrow> bool" where
  "defaultReadyToTrip c = (ConsecutiveFailures c > 5)"

definition defaultIsSuccessful :: "go_error option \<Rightarrow> bool" where
  "defaultIsSuccessful err = (err = None)"

subsection \<open>Generations and transitions\<close>

definition toNewGeneration :: "CircuitBreaker \<Rightarrow> Time \<Rightarrow> CircuitBreaker" where
  "toNewGeneration cb now =
     (let cb1 = cb\<lparr>generation := generation cb + 1, counts := Counts_clear (counts cb)\<rparr>
      in case state cb1 of
           StateClosed \<Rightarrow>
             if interval cb1 = 0 then cb1\<lparr>expiry := zero_Time\<rparr>
             else cb1\<lparr>expiry := Add now (interval cb1)\<rparr>
         | StateOpen \<Rightarrow> cb1\<lparr>expiry := Add now (timeout cb1)\<rparr>
         | StateHalfOpen \<Rightarrow> cb1\<lparr>expiry := zero_Time\<rparr>)"

definition setState :: "CircuitBreaker \<Rightarrow> State \<Rightarrow> Time \<Rightarrow> CircuitBreaker" where
  "setState cb st now =
     (if state cb = st then cb
      else
        let prev = state cb;
            cb1 = cb\<lparr>state := st\<rparr>;
            cb2 = toNewGeneration cb1 now
        in if onStateChange cb2
           then cb2\<lparr>notified := notified cb2 @ [(name cb2, prev, st)]\<rparr>
           else cb2)"

text \<open>\<open>currentState\<close> returns the updated breaker with the state and generation it reports.\<close>

definition currentState :: "CircuitBreaker \<Rightarrow> Time \<Rightarrow> CircuitBreaker \<times> State \<times> u64" where
  "currentState cb now =
     (let cb1 =
        (case state cb of
           StateClosed \<Rightarrow>
             if \<not> IsZero (expiry cb) \<and> Before (expiry cb) now
             then toNewGeneration cb now else cb
         | StateOpen \<Rightarrow>
             if Before (expiry cb) now then setState cb StateHalfOpen now else cb
         | StateHalfOpen \<Rightarrow> cb)
      in (cb1, state cb1, generation cb1))"

subsection \<open>Admission and report\<close>

definition beforeRequest :: "CircuitBreaker \<Rightarrow> Time \<Rightarrow> CircuitBreaker \<times> u64 \<times> go_error option" where
  "beforeRequest cb now =
     (case currentState cb now of
        (cb1, st, gen) \<Rightarrow>
          if st = StateOpen then (cb1, gen, Some ErrOpenState)
          else if st = StateHalfOpen \<and> Requests (counts cb1) \<ge> maxRequests cb1
          then (cb1, gen, Some ErrTooManyRequests)
          else (cb1\<lparr>counts := Counts_onRequest (counts cb1)\<rparr>, gen, None))"

definition onSuccess :: "CircuitBreaker \<Rightarrow> State \<Rightarrow> Time \<Rightarrow> CircuitBreaker" where
  "onSuccess cb st now =
     (case st of
        StateClosed \<Rightarrow> cb\<lparr>counts := Counts_onSuccess (counts cb)\<rparr>
      | StateHalfOpen \<Rightarrow>
          (let cb1 = cb\<lparr>counts := Counts_onSuccess (counts cb)\<rparr>
           in if ConsecutiveSuccesses (counts cb1) \<ge> maxRequests cb1
              then setState cb1 StateClosed now else cb1)
      | StateOpen \<Rightarrow> cb)"

definition onFailure :: "CircuitBreaker \<Rightarrow> State \<Rightarrow> Time \<Rightarrow> CircuitBreaker" where
  "onFailure cb st now =
     (case st of
        StateClosed \<Rightarrow>
          (let cb1 = cb\<lparr>counts := Counts_onFailure (counts cb)\<rparr>
           in if readyToTrip cb1 (counts cb1) then setState cb1 StateOpen now else cb1)
      | StateHalfOpen \<Rightarrow> setState cb StateOpen now
      | StateOpen \<Rightarrow> cb)"

definition afterRequest :: "CircuitBreaker \<Rightarrow> u64 \<Rightarrow> bool \<Rightarrow> Time \<Rightarrow> CircuitBreaker" where
  "afterRequest cb before success now =
     (case currentState cb now of
        (cb1, st, gen) \<Rightarrow>
          if gen \<noteq> before then cb1
          else if success then onSuccess cb1 st now
          else onFailure cb1 st now)"

subsection \<open>Construction and accessors\<close>

text \<open>\<open>new(CircuitBreaker)\<close>: every field has its zero value.\<close>

definition new_CircuitBreaker :: CircuitBreaker where
  "new_CircuitBreaker =
     \<lparr>name = [], maxRequests = 0, interval = 0, timeout = 0,
      readyToTrip = (\<lambda>c. False), isSuccessful = (\<lambda>e. False), onStateChange = False,
      state = StateClosed, generation = 0, counts = zero_Counts, expiry = zero_Time,
      notified = []\<rparr>"

definition NewCircuitBreaker :: "Settings \<Rightarrow> Time \<Rightarrow> CircuitBreaker" where
  "NewCircuitBreaker st now =
     (let cb = new_CircuitBreaker\<lparr>name := Name st, onStateChange := OnStateChange st\<rparr>;
          cb = (if MaxRequests st = 0 then cb\<lparr>maxRequests := 1\<rparr>
                else cb\<lparr>maxRequests := MaxRequests st\<rparr>);
          cb = (if Interval st \<le> 0 then cb\<lparr>interval := defaultInterval\<rparr>
                else cb\<lparr>interval := Interval st\<rparr>);
          cb = (if Timeout st \<le> 0 then cb\<lparr>timeout := defaultTimeout\<rparr>
                else cb\<lparr>timeout := Timeout st\<rparr>);
          cb = (case ReadyToTrip st of
                  None \<Rightarrow> cb\<lparr>readyToTrip := defaultReadyToTrip\<rparr>
                | Some f \<Rightarrow> cb\<lparr>readyToTrip := f\<rparr>);
          cb = (case IsSuccessful st of
                  None \<Rightarrow> cb\<lparr>isSuccessful := defaultIsSuccessful\<rparr>
                | Some f \<Rightarrow> cb\<lparr>isSuccessful := f\<rparr>)
      in toNewGeneration cb now)"

definition CircuitBreaker_Name :: "CircuitBreaker \<Rightarrow> string" where
  "CircuitBreaker_Name cb = name cb"

definition CircuitBreaker_State :: "CircuitBreaker \<Rightarrow> Time \<Rightarrow> CircuitBreaker \<times> State" where
  "CircuitBreaker_State cb now =
     (case currentState cb now of (cb1, st, gen) \<Rightarrow> (cb1, st))"

definition CircuitBreaker_Counts :: "CircuitBreaker \<Rightarrow> CircuitBreaker \<times> Counts" where
  "CircuitBreaker_Counts cb = (cb, counts cb)"

subsection \<open>The two facades\<close>

text \<open>
  \<open>Allow\<close> returns the reporter closure, which captures the generation; the closure
  is applied to the success flag, the breaker as it is when the caller reports, and
  the clock reading of that call.
\<close>

type_synonym reporter = "bool \<Rightarrow> CircuitBreaker \<Rightarrow> Time \<Rightarrow> CircuitBreaker"

definition Allow :: "CircuitBreaker \<Rightarrow> Time \<Rightarrow> CircuitBreaker \<times> (go_error + reporter)" where
  "Allow cb now =
     (case beforeRequest cb now of
        (cb1, gen, Some err) \<Rightarrow> (cb1, Inl err)
      | (cb1, gen, None) \<Rightarrow>
          (cb1, Inr (\<lambda>success cb' now'. afterRequest cb' gen success now')))"

text \<open>
  \<open>Execute\<close> runs the request between the two locked sections. The request is given
  by what it does: it returns a result and an error, or it panics with a value. The
  two clock readings are those of \<open>beforeRequest\<close> and of \<open>afterRequest\<close>.
\<close>

datatype 'r outcome = Returns 'r "go_error option" | Panics string

datatype 'r executed = Rejected go_error | Returned 'r "go_error option" | Panicked string

definition Execute ::
  "CircuitBreaker \<Rightarrow> 'r outcome \<Rightarrow> Time \<Rightarrow> Time \<Rightarrow> CircuitBreaker \<times> 'r executed" where
  "Execute cb req now now' =
     (case beforeRequest cb now of
        (cb1, gen, Some err) \<Rightarrow> (cb1, Rejected err)
      | (cb1, gen, None) \<Rightarrow>
          (case req of
             Panics e \<Rightarrow> (afterRequest cb1 gen False now', Panicked e)
           | Returns result err \<Rightarrow>
               (afterRequest cb1 gen (isSuccessful cb1 err) now', Returned result err)))"

subsection \<open>Sequences of operations\<close>

text \<open>
  The locked operations of the engine, each with the clock reading it takes. A run
  applies them one after the other, which is what the mutex makes of any number of
  concurrent callers. The token of a report is arbitrary here.
\<close>

datatype op = OpBeforeRequest Time | OpAfterRequest u64 bool Time | OpState Time | OpCounts

fun apply_op :: "CircuitBreaker \<Rightarrow> op \<Rightarrow> CircuitBreaker" where
  "apply_op cb (OpBeforeRequest now) = fst (beforeRequest cb now)"
| "apply_op cb (OpAfterRequest before success now) = afterRequest cb before success now"
| "apply_op cb (OpState now) = fst (CircuitBreaker_State cb now)"
| "apply_op cb OpCounts = fst (CircuitBreaker_Counts cb)"

fun run :: "CircuitBreaker \<Rightarrow> op list \<Rightarrow> CircuitBreaker" where
  "run cb [] = cb"
| "run cb (x # xs) = run (apply_op cb x) xs"

fun op_not_after :: "Time \<Rightarrow> op \<Rightarrow> bool" where
  "op_not_after t (OpBeforeRequest now) = (now \<le> t)"
| "op_not_after t (OpAfterRequest before success now) = (now \<le> t)"
| "op_not_after t (OpState now) = (now \<le> t)"
| "op_not_after t OpCounts = True"

text \<open>
  A run in which every admitted request is reported at most once: the tokens handed
  out by admissions and not yet reported are kept beside the breaker, a report
  consumes one of them, and a report with a token that is not outstanding is not
  such a run (\<open>None\<close>).
\<close>

fun tracked_op ::
  "CircuitBreaker \<times> u64 list \<Rightarrow> op \<Rightarrow> (CircuitBreaker \<times> u64 list) option" where
  "tracked_op (cb, pending) (OpBeforeRequest now) =
     (case beforeRequest cb now of
        (cb1, gen, None) \<Rightarrow> Some (cb1, gen # pending)
      | (cb1, gen, Some err) \<Rightarrow> Some (cb1, pending))"
| "tracked_op (cb, pending) (OpAfterRequest before success now) =
     (if before \<in> set pending
      then Some (afterRequest cb before success now, remove1 before pending)
      else None)"
| "tracked_op (cb, pending) (OpState now) = Some (fst (CircuitBreaker_State cb now), pending)"
| "tracked_op (cb, pending) OpCounts = Some (fst (CircuitBreaker_Counts cb), pending)"

fun tracked_run ::
  "CircuitBreaker \<times> u64 list \<Rightarrow> op list \<Rightarrow> (CircuitBreaker \<times> u64 list) option" where
  "tracked_run s [] = Some s"
| "tracked_run s (x # xs) =
     (case tracked_op s x of None \<Rightarrow> None | Some s' \<Rightarrow> tracked_run s' xs)"

text \<open>Requests run one after the other through \<open>Execute\<close>, and requests that fail.\<close>

fun execute_all ::
  "CircuitBreaker \<Rightarrow> ('r outcome \<times> Time \<times> Time) list \<Rightarrow> CircuitBreaker" where
  "execute_all cb [] = cb"
| "execute_all cb ((req, now, now') # rs) = execute_all (fst (Execute cb req now now')) rs"

fun fails :: "'r outcome \<Rightarrow> bool" where
  "fails (Returns result err) = (err \<noteq> None)"
| "fails (Panics e) = True"

subsection \<open>Concrete breakers\<close>

text \<open>The zero value of \<open>Settings\<close>: every default applies.\<close>

definition zero_Settings :: Settings where
  "zero_Settings =
     \<lparr>Name = [], MaxRequests = 0, Interval = 0, Timeout = 0,
      ReadyToTrip = None, OnStateChange = False, IsSuccessful = None\<rparr>"

text \<open>A breaker with two probes, a closed-state interval of 10 and a timeout of 60
  nanoseconds, constructed at instant 1.\<close>

definition interval_Settings :: Settings where
  "interval_Settings =
     zero_Settings\<lparr>Name := ''cb'', MaxRequests := 2, Interval := 10, Timeout := 60,
                   OnStateChange := True\<rparr>"

definition interval_breaker :: CircuitBreaker where
  "interval_breaker = NewCircuitBreaker interval_Settings 1"

text \<open>The same breaker after one admission at instant 2.\<close>

definition admitted_breaker :: CircuitBreaker where
  "admitted_breaker = fst (beforeRequest interval_breaker 2)"

text \<open>The admitted breaker after a second admission at instant 20, which finds the
  interval expired and starts generation 2.\<close>

definition rolled_breaker :: CircuitBreaker where
  "rolled_breaker = fst (beforeRequest admitted_breaker 20)"

text \<open>The same breaker tripped to open at instant 5.\<close>

definition tripped_breaker :: CircuitBreaker where
  "tripped_breaker = setState interval_breaker StateOpen 5"

text \<open>The tripped breaker queried after its timeout, then probed once and twice.\<close>

definition halfopen_breaker :: CircuitBreaker where
  "halfopen_breaker = fst (CircuitBreaker_State tripped_breaker 66)"

definition probing_breaker :: CircuitBreaker where
  "probing_breaker = fst (beforeRequest halfopen_breaker 67)"

definition saturated_breaker :: CircuitBreaker where
  "saturated_breaker = fst (beforeRequest probing_breaker 68)"

text \<open>One \<open>Allow\<close> on a default breaker, and its reporter called twice with success.\<close>

definition reported_twice :: CircuitBreaker where
  "reported_twice =
     (case Allow (NewCircuitBreaker zero_Settings 1) 2 of
        (cb1, Inr done) \<Rightarrow> done True (done True cb1 3) 4
      | (cb1, Inl err) \<Rightarrow> cb1)"

subsection \<open>Invariants\<close>

text \<open>A half-open breaker has admitted at most \<open>maxRequests\<close> requests.\<close>

definition halfopen_within_quota :: "CircuitBreaker \<Rightarrow> bool" where
  "halfopen_within_quota cb =
     (state cb = StateHalfOpen \<longrightarrow> Requests (counts cb) \<le> maxRequests cb)"

text \<open>
  The breaker of the run that trips on the sixth failure: closed, with no interval
  and the two default policies.
\<close>

definition default_closed :: "CircuitBreaker \<Rightarrow> bool" where
  "default_closed cb =
     (state cb = StateClosed \<and> IsZero (expiry cb) \<and> interval cb = 0 \<and>
      readyToTrip cb = defaultReadyToTrip \<and> isSuccessful cb = defaultIsSuccessful)"

text \<open>
  The bookkeeping of a run with outstanding tokens \<open>pending\<close>: every admitted request
  of the current generation is a recorded success, a recorded failure or an outstanding
  token; no token is ahead of the generation; an open breaker has admitted nothing;
  and \<open>k\<close> and \<open>n\<close> bound the requests and the generation, so that neither counter
  has wrapped around.
\<close>

definition balanced :: "CircuitBreaker \<Rightarrow> u64 list \<Rightarrow> nat \<Rightarrow> nat \<Rightarrow> bool" where
  "balanced cb pending k n =
     (unat (TotalSuccesses (counts cb)) + unat (TotalFailures (counts cb)) +
        count_list pending (generation cb) = unat (Requests (counts cb)) \<and>
      (\<forall>g\<in>set pending. unat g \<le> unat (generation cb)) \<and>
      (state cb = StateOpen \<longrightarrow> Requests (counts cb) = 0) \<and>
      unat (Requests (counts cb)) \<le> k \<and>
      unat (generation cb) \<le> n)"

subsection \<open>Concrete runs\<close>

text \<open>Six admitted and failed requests, then two probes after the timeout.\<close>

definition quota_ops :: "op list" where
  "quota_ops =
     [OpBeforeRequest 2, OpAfterRequest 1 False 3, OpBeforeRequest 2, OpAfterRequest 1 False 3,
      OpBeforeRequest 2, OpAfterRequest 1 False 3, OpBeforeRequest 2, OpAfterRequest 1 False 3,
      OpBeforeRequest 2, OpAfterRequest 1 False 3, OpBeforeRequest 2, OpAfterRequest 1 False 3,
      OpBeforeRequest 64, OpBeforeRequest 65]"

text \<open>Five requests through \<open>Execute\<close> that return an error or panic.\<close>

definition five_failures :: "(unit outcome \<times> Time \<times> Time) list" where
  "five_failures =
     [(Returns () (Some (RequestError ''refused'')), 2, 3), (Panics ''panic'', 4, 5),
      (Returns () (Some (RequestError ''refused'')), 6, 7), (Panics ''panic'', 8, 9),
      (Returns () (Some (RequestError ''reset'')), 10, 11)]"

text \<open>Two admissions, each reported once, with a state and a counts query.\<close>

definition once_each_ops :: "op list" where
  "once_each_ops =
     [OpBeforeRequest 2, OpBeforeRequest 3, OpAfterRequest 1 True 4, OpState 5,
      OpAfterRequest 1 False 6, OpCounts]"

definition served_breaker :: CircuitBreaker where
  "served_breaker = run (NewCircuitBreaker zero_Settings 1) once_each_ops"

section \<open>Basic facts\<close>

lemmas time_defs = zero_Time_def IsZero_def Before_def Add_def

lemmas Counts_defs = Counts_onRequest_def Counts_onSuccess_def Counts_onFailure_def
  Counts_clear_def zero_Counts_def

lemmas breaker_defs = toNewGeneration_def setState_def currentState_def beforeRequest_def
  afterRequest_def onSuccess_def onFailure_def CircuitBreaker_State_def
  CircuitBreaker_Counts_def

lemma Counts_clear_zero: "Counts_clear c = zero_Counts"
  by (simp add: Counts_defs)

lemma currentState_HalfOpen:
  "state cb = StateHalfOpen \<Longrightarrow> currentState cb now = (cb, StateHalfOpen, generation cb)"
  by (simp add: currentState_def)

lemma currentState_snd:
  "currentState cb now =
     (fst (currentState cb now), state (fst (currentState cb now)),
      generation (fst (currentState cb now)))"
  by (simp add: currentState_def Let_def)

lemma open_unexpired_apply_op:
  assumes "state cb = StateOpen" and "op_not_after (expiry cb) x"
  shows "apply_op cb x = cb"
proof -
  have cs: "\<And>now. now \<le> expiry cb \<Longrightarrow> currentState cb now = (cb, StateOpen, generation cb)"
    using assms(1) by (simp add: currentState_def Before_def)
  show ?thesis
    using assms(2)
    by (cases x)
       (simp_all add: cs beforeRequest_def afterRequest_def onSuccess_def onFailure_def
          CircuitBreaker_State_def CircuitBreaker_Counts_def)
qed

lemma open_unexpired_run:
  assumes "state cb = StateOpen" and "\<forall>x\<in>set ops. op_not_after (expiry cb) x"
  shows "run cb ops = cb"
  using assms by (induction ops) (simp_all add: open_unexpired_apply_op)

lemma setState_Open:
  assumes "state cb0 \<noteq> StateOpen"
  shows "state (setState cb0 StateOpen T) = StateOpen"
    and "expiry (setState cb0 StateOpen T) = Add T (timeout cb0)"
    and "generation (setState cb0 StateOpen T) = generation cb0 + 1"
    and "counts (setState cb0 StateOpen T) = zero_Counts"
  using assms by (simp_all add: setState_def toNewGeneration_def Let_def Counts_clear_zero)

lemma state_setState: "state (setState cb st now) = st"
  by (cases st) (simp_all add: setState_def toNewGeneration_def Let_def)

lemma interval_toNewGeneration: "interval (toNewGeneration cb now) = interval cb"
  by (cases "state cb") (simp_all add: toNewGeneration_def Let_def)

lemma interval_setState: "interval (setState cb st now) = interval cb"
  using interval_toNewGeneration [of "cb\<lparr>state := st\<rparr>" now]
  by (simp add: setState_def Let_def)

lemma interval_currentState: "interval (fst (currentState cb now)) = interval cb"
  by (cases "state cb")
     (simp_all add: currentState_def Let_def interval_toNewGeneration interval_setState)

lemma interval_apply_op: "interval (apply_op cb x) = interval cb"
proof -
  have cs: "currentState cb now =
      (fst (currentState cb now), state (fst (currentState cb now)),
       generation (fst (currentState cb now)))" for now
    by (rule currentState_snd)
  have s: "interval (onSuccess c st now) = interval c" for c st now
    by (cases st) (simp_all add: onSuccess_def Let_def interval_setState)
  have f: "interval (onFailure c st now) = interval c" for c st now
    by (cases st) (simp_all add: onFailure_def Let_def interval_setState)
  show ?thesis
  proof (cases x)
    case (OpBeforeRequest now)
    then show ?thesis
      by (simp, subst beforeRequest_def, subst cs) (simp add: interval_currentState)
  next
    case (OpAfterRequest before success now)
    then show ?thesis
      by (simp, subst afterRequest_def, subst cs) (simp add: interval_currentState s f)
  next
    case (OpState now)
    then show ?thesis
      by (simp, subst CircuitBreaker_State_def, subst cs) (simp add: interval_currentState)
  next
    case OpCounts
    then show ?thesis by (simp add: CircuitBreaker_Counts_def)
  qed
qed

lemma interval_nonnegative:
  "0 \<le> interval (run (NewCircuitBreaker st t0) ops)"
proof -
  have "interval (run cb ops) = interval cb" for cb
    by (induction ops arbitrary: cb) (simp_all add: interval_apply_op)
  moreover have "0 \<le> interval (NewCircuitBreaker st t0)"
    by (simp add: NewCircuitBreaker_def Let_def interval_toNewGeneration
          new_CircuitBreaker_def defaultInterval_def split: option.splits)
  ultimately show ?thesis by simp
qed

subsection \<open>The concrete breakers, evaluated\<close>

lemma interval_breaker_eq:
  "interval_breaker =
     \<lparr>name = ''cb'', maxRequests = 2, interval = 10, timeout = 60,
      readyToTrip = defaultReadyToTrip, isSuccessful = defaultIsSuccessful,
      onStateChange = True, state = StateClosed, generation = 1, counts = zero_Counts,
      expiry = 11, notified = []\<rparr>"
  by (simp add: interval_breaker_def interval_Settings_def zero_Settings_def
        NewCircuitBreaker_def new_CircuitBreaker_def toNewGeneration_def time_defs
        Counts_clear_zero)

lemma admitted_breaker_eq:
  "admitted_breaker = interval_breaker\<lparr>counts := zero_Counts\<lparr>Requests := 1\<rparr>\<rparr>"
  by (simp add: admitted_breaker_def interval_breaker_eq breaker_defs time_defs Counts_defs)

lemma rolled_breaker_eq:
  "rolled_breaker =
     interval_breaker\<lparr>generation := 2, counts := zero_Counts\<lparr>Requests := 1\<rparr>,
                      expiry := 30\<rparr>"
  by (simp add: rolled_breaker_def admitted_breaker_eq interval_breaker_eq breaker_defs
        time_defs Counts_defs)

lemma tripped_breaker_eq:
  "tripped_breaker =
     interval_breaker\<lparr>state := StateOpen, generation := 2, expiry := 65,
                      notified := [(''cb'', StateClosed, StateOpen)]\<rparr>"
  by (simp add: tripped_breaker_def interval_breaker_eq breaker_defs time_defs
        Counts_clear_zero)

lemma halfopen_breaker_eq:
  "halfopen_breaker =
     interval_breaker\<lparr>state := StateHalfOpen, generation := 3, expiry := 0,
                      notified := [(''cb'', StateClosed, StateOpen),
                                   (''cb'', StateOpen, StateHalfOpen)]\<rparr>"
  by (simp add: halfopen_breaker_def tripped_breaker_eq interval_breaker_eq breaker_defs
        time_defs Counts_clear_zero)

lemma probing_breaker_eq:
  "probing_breaker = halfopen_breaker\<lparr>counts := zero_Counts\<lparr>Requests := 1\<rparr>\<rparr>"
  by (simp add: probing_breaker_def halfopen_breaker_eq interval_breaker_eq breaker_defs
        time_defs Counts_defs)

lemma saturated_breaker_eq:
  "saturated_breaker = halfopen_breaker\<lparr>counts := zero_Counts\<lparr>Requests := 2\<rparr>\<rparr>"
  by (simp add: saturated_breaker_def probing_breaker_eq halfopen_breaker_eq
        interval_breaker_eq breaker_defs time_defs Counts_defs word_le_nat_alt)

section \<open>Invariants of runs\<close>

subsection \<open>The half-open quota\<close>

lemma quota_toNewGeneration:
  "halfopen_within_quota (toNewGeneration cb now)"
  by (cases "state cb")
     (simp_all add: halfopen_within_quota_def toNewGeneration_def Let_def Counts_clear_def)

lemma quota_setState:
  "halfopen_within_quota cb \<Longrightarrow> halfopen_within_quota (setState cb st now)"
  using quota_toNewGeneration [of "cb\<lparr>state := st\<rparr>" now]
  by (simp add: setState_def Let_def halfopen_within_quota_def)

lemma quota_currentState:
  "halfopen_within_quota cb \<Longrightarrow> halfopen_within_quota (fst (currentState cb now))"
  by (cases "state cb")
     (simp_all add: currentState_def Let_def quota_toNewGeneration quota_setState)

lemma quota_counts_update:
  "halfopen_within_quota cb \<Longrightarrow> Requests c = Requests (counts cb) \<Longrightarrow>
   halfopen_within_quota (cb\<lparr>counts := c\<rparr>)"
  by (simp add: halfopen_within_quota_def)

lemma quota_onSuccess:
  "halfopen_within_quota cb \<Longrightarrow> halfopen_within_quota (onSuccess cb st now)"
  by (cases st)
     (simp_all add: onSuccess_def Let_def quota_setState quota_counts_update
        Counts_onSuccess_def)

lemma quota_onFailure:
  "halfopen_within_quota cb \<Longrightarrow> halfopen_within_quota (onFailure cb st now)"
  by (cases st)
     (simp_all add: onFailure_def Let_def quota_setState quota_counts_update
        Counts_onFailure_def)

lemma quota_beforeRequest:
  assumes "halfopen_within_quota cb"
  shows "halfopen_within_quota (fst (beforeRequest cb now))"
proof -
  let ?cb1 = "fst (currentState cb now)"
  have q: "halfopen_within_quota ?cb1" using assms by (rule quota_currentState)
  have cs: "currentState cb now = (?cb1, state ?cb1, generation ?cb1)"
    by (rule currentState_snd)
  have "\<not> maxRequests ?cb1 \<le> Requests (counts ?cb1) \<Longrightarrow>
        Requests (counts ?cb1) + 1 \<le> maxRequests ?cb1"
    by (simp add: inc_le)
  then show ?thesis
    using q by (subst beforeRequest_def, subst cs)
      (auto simp add: halfopen_within_quota_def Counts_onRequest_def)
qed

lemma quota_afterRequest:
  assumes "halfopen_within_quota cb"
  shows "halfopen_within_quota (afterRequest cb before success now)"
proof -
  let ?cb1 = "fst (currentState cb now)"
  have q: "halfopen_within_quota ?cb1" using assms by (rule quota_currentState)
  have cs: "currentState cb now = (?cb1, state ?cb1, generation ?cb1)"
    by (rule currentState_snd)
  show ?thesis
    using q by (subst afterRequest_def, subst cs) (simp add: quota_onSuccess quota_onFailure)
qed

lemma quota_apply_op:
  "halfopen_within_quota cb \<Longrightarrow> halfopen_within_quota (apply_op cb x)"
  by (cases x)
     (simp_all add: quota_beforeRequest quota_afterRequest CircuitBreaker_State_def
        CircuitBreaker_Counts_def quota_currentState split: prod.splits,
      metis fst_conv quota_currentState)

lemma quota_run:
  "halfopen_within_quota cb \<Longrightarrow> halfopen_within_quota (run cb ops)"
  by (induction ops arbitrary: cb) (simp_all add: quota_apply_op)

lemma quota_NewCircuitBreaker: "halfopen_within_quota (NewCircuitBreaker st t0)"
  by (simp add: NewCircuitBreaker_def Let_def quota_toNewGeneration)

lemma saturated_apply_op:
  assumes "state cb = StateHalfOpen" and "maxRequests cb \<le> Requests (counts cb)"
      and "state (apply_op cb x) = StateHalfOpen"
  shows "Requests (counts (apply_op cb x)) = Requests (counts cb) \<and>
         maxRequests (apply_op cb x) = maxRequests cb"
  using assms
  by (cases x)
     (auto simp add: currentState_HalfOpen beforeRequest_def afterRequest_def onSuccess_def
        onFailure_def CircuitBreaker_State_def CircuitBreaker_Counts_def Let_def
        Counts_onSuccess_def state_setState split: if_splits)

subsection \<open>Failures of a default breaker\<close>

lemma closed_failure_report:
  assumes "state cb = StateClosed" and "IsZero (expiry cb) \<or> \<not> Before (expiry cb) now"
  shows "afterRequest cb (generation cb) False now =
           (if readyToTrip cb (Counts_onFailure (counts cb))
            then setState (cb\<lparr>counts := Counts_onFailure (counts cb)\<rparr>) StateOpen now
            else cb\<lparr>counts := Counts_onFailure (counts cb)\<rparr>)"
  using assms by (auto simp add: afterRequest_def currentState_def onFailure_def Let_def)

lemma Execute_fails:
  assumes "default_closed cb" and "fails req"
  shows "fst (Execute cb req now now') =
           (if 5 < ConsecutiveFailures (counts cb) + 1
            then setState (cb\<lparr>counts := Counts_onFailure (Counts_onRequest (counts cb))\<rparr>)
                   StateOpen now'
            else cb\<lparr>counts := Counts_onFailure (Counts_onRequest (counts cb))\<rparr>)"
proof -
  let ?cb1 = "cb\<lparr>counts := Counts_onRequest (counts cb)\<rparr>"
  let ?c2 = "Counts_onFailure (Counts_onRequest (counts cb))"
  have b: "beforeRequest cb now = (?cb1, generation cb, None)"
    using assms(1) by (simp add: default_closed_def beforeRequest_def currentState_def)
  have "afterRequest ?cb1 (generation ?cb1) False now' =
           (if readyToTrip ?cb1 (Counts_onFailure (counts ?cb1))
            then setState (?cb1\<lparr>counts := Counts_onFailure (counts ?cb1)\<rparr>) StateOpen now'
            else ?cb1\<lparr>counts := Counts_onFailure (counts ?cb1)\<rparr>)"
    using assms(1) by (intro closed_failure_report) (simp_all add: default_closed_def)
  moreover have "readyToTrip ?cb1 ?c2 = (5 < ConsecutiveFailures (counts cb) + 1)"
    using assms(1)
    by (simp add: default_closed_def defaultReadyToTrip_def Counts_onFailure_def
          Counts_onRequest_def)
  ultimately have a: "afterRequest ?cb1 (generation cb) False now' =
           (if 5 < ConsecutiveFailures (counts cb) + 1
            then setState (cb\<lparr>counts := ?c2\<rparr>) StateOpen now' else cb\<lparr>counts := ?c2\<rparr>)"
    by simp
  have c: "\<not> isSuccessful ?cb1 (Some y)" for y
    using assms(1) by (simp add: default_closed_def defaultIsSuccessful_def)
  show ?thesis
  proof (cases req)
    case (Returns result err)
    with assms(2) obtain y where "err = Some y" by auto
    with Returns show ?thesis
      unfolding Execute_def b using a c by simp
  next
    case (Panics e)
    then show ?thesis
      unfolding Execute_def b using a by simp
  qed
qed

lemma failures_stay_closed:
  assumes "default_closed cb" and "\<forall>r\<in>set rs. fails (fst r)"
      and "unat (ConsecutiveFailures (counts cb)) + length rs \<le> 5"
  shows "default_closed (execute_all cb rs) \<and>
         unat (ConsecutiveFailures (counts (execute_all cb rs))) =
           unat (ConsecutiveFailures (counts cb)) + length rs"
  using assms
proof (induction rs arbitrary: cb)
  case Nil
  then show ?case by simp
next
  case (Cons r rs)
  obtain req now now' where r: "r = (req, now, now')" by (cases r)
  let ?cb' = "cb\<lparr>counts := Counts_onFailure (Counts_onRequest (counts cb))\<rparr>"
  have lt: "unat (ConsecutiveFailures (counts cb)) < 5" using Cons.prems(3) by simp
  have u: "unat (ConsecutiveFailures (counts cb) + 1) = unat (ConsecutiveFailures (counts cb)) + 1"
    using lt by (simp add: unat_word_ariths)
  have n5: "\<not> 5 < ConsecutiveFailures (counts cb) + 1"
    using lt u by (simp add: word_less_nat_alt)
  have f: "fails req" using Cons.prems(2) r by simp
  have e: "fst (Execute cb req now now') = ?cb'"
    using Execute_fails [OF Cons.prems(1) f, of now now'] n5 by simp
  have d: "default_closed ?cb'"
    using Cons.prems(1) by (simp add: default_closed_def)
  have cf: "unat (ConsecutiveFailures (counts ?cb')) = unat (ConsecutiveFailures (counts cb)) + 1"
    using u by (simp add: Counts_onFailure_def Counts_onRequest_def)
  have "default_closed (execute_all ?cb' rs) \<and>
        unat (ConsecutiveFailures (counts (execute_all ?cb' rs))) =
          unat (ConsecutiveFailures (counts ?cb')) + length rs"
    using Cons.prems(2,3) cf by (intro Cons.IH [OF d]) simp_all
  then show ?case using r e cf by simp
qed

lemma default_closed_NewCircuitBreaker:
  assumes "ReadyToTrip st = None" and "IsSuccessful st = None" and "Interval st \<le> 0"
  shows "default_closed (NewCircuitBreaker st t0)"
    and "counts (NewCircuitBreaker st t0) = zero_Counts"
  using assms
  by (simp_all add: default_closed_def NewCircuitBreaker_def new_CircuitBreaker_def Let_def
        toNewGeneration_def defaultInterval_def time_defs Counts_clear_zero)

subsection \<open>Counts and outstanding tokens\<close>

lemma unat_Suc_u64:
  fixes g :: u64
  assumes "unat g \<le> n" and "n < 2 ^ 64 - 1"
  shows "unat (g + 1) = unat g + 1"
proof -
  have "unat g + unat (1::u64) < 2 ^ LENGTH(64)" using assms by simp
  then show ?thesis using unat_add_lem [of g 1] by simp
qed

lemma unat_Suc_u32:
  fixes c :: u32
  assumes "unat c \<le> k" and "k < 2 ^ 32 - 1"
  shows "unat (c + 1) = unat c + 1"
proof -
  have "unat c + unat (1::u32) < 2 ^ LENGTH(32)" using assms by simp
  then show ?thesis using unat_add_lem [of c 1] by simp
qed

lemma count_list_remove1:
  "count_list (remove1 x xs) y =
     (if x = y \<and> x \<in> set xs then count_list xs y - 1 else count_list xs y)"
  by (induction xs) auto

lemma balanced_mono:
  "balanced cb p k n \<Longrightarrow> k \<le> k' \<Longrightarrow> n \<le> n' \<Longrightarrow> balanced cb p k' n'"
  by (simp add: balanced_def)

lemma balanced_fresh:
  assumes "\<forall>g\<in>set p. unat g \<le> unat (generation cb)"
      and "unat (generation cb) \<le> n" and "n < 2 ^ 64 - 1"
      and "generation cb' = generation cb + 1" and "counts cb' = zero_Counts"
  shows "balanced cb' p k (n + 1)"
proof -
  have u: "unat (generation cb') = unat (generation cb) + 1"
    using assms(2,3,4) unat_Suc_u64 by simp
  have "generation cb' \<notin> set p"
  proof
    assume "generation cb' \<in> set p"
    then have "unat (generation cb') \<le> unat (generation cb)" using assms(1) by blast
    with u show False by simp
  qed
  then have c: "count_list p (generation cb') = 0" by simp
  have le: "\<forall>g\<in>set p. unat g \<le> unat (generation cb')"
    using assms(1) u by fastforce
  show ?thesis
    unfolding balanced_def using c le u assms(2,5) by (simp add: zero_Counts_def)
qed

lemma toNewGeneration_fresh:
  "generation (toNewGeneration cb now) = generation cb + 1"
  "counts (toNewGeneration cb now) = zero_Counts"
  "state (toNewGeneration cb now) = state cb"
  by (cases "state cb"; simp add: toNewGeneration_def Let_def Counts_clear_zero)+

lemma setState_fresh:
  assumes "state cb \<noteq> st"
  shows "generation (setState cb st now) = generation cb + 1"
    and "counts (setState cb st now) = zero_Counts"
  using assms toNewGeneration_fresh [of "cb\<lparr>state := st\<rparr>" now]
  by (simp_all add: setState_def Let_def)

lemma balanced_toNewGeneration:
  assumes "balanced cb p k n" and "n < 2 ^ 64 - 1"
  shows "balanced (toNewGeneration cb now) p k (n + 1)"
  using assms by (intro balanced_fresh [of p cb]) (simp_all add: balanced_def toNewGeneration_fresh)

lemma balanced_setState:
  assumes "\<forall>g\<in>set p. unat g \<le> unat (generation cb)" and "unat (generation cb) \<le> n"
      and "n < 2 ^ 64 - 1" and "state cb \<noteq> st"
  shows "balanced (setState cb st now) p k (n + 1)"
  using assms by (intro balanced_fresh [of p cb]) (simp_all add: setState_fresh)

lemma balanced_currentState:
  assumes "balanced cb p k n" and "n < 2 ^ 64 - 1"
  shows "balanced (fst (currentState cb now)) p k (n + 1)"
proof (cases "state cb")
  case StateClosed
  then show ?thesis
    using assms balanced_toNewGeneration [OF assms] balanced_mono [OF assms(1), of k "n + 1"]
    by (simp add: currentState_def Let_def)
next
  case StateHalfOpen
  then show ?thesis
    using balanced_mono [OF assms(1), of k "n + 1"] by (simp add: currentState_def)
next
  case StateOpen
  have "balanced (setState cb StateHalfOpen now) p k (n + 1)"
    using assms StateOpen by (intro balanced_setState) (simp_all add: balanced_def)
  then show ?thesis
    using StateOpen balanced_mono [OF assms(1), of k "n + 1"]
    by (simp add: currentState_def Let_def)
qed

lemma balanced_admit:
  assumes "balanced cb p k n" and "k < 2 ^ 32 - 1" and "state cb \<noteq> StateOpen"
  shows "balanced (cb\<lparr>counts := Counts_onRequest (counts cb)\<rparr>) (generation cb # p) (k + 1) n"
proof -
  have "unat (Requests (counts cb) + 1) = unat (Requests (counts cb)) + 1"
    using assms(1,2) by (intro unat_Suc_u32 [of _ k]) (simp_all add: balanced_def)
  then show ?thesis
    using assms(1,3) by (simp add: balanced_def Counts_onRequest_def)
qed

lemma beforeRequest_outcome:
  assumes "beforeRequest cb now = (cb', gen, err)" and "c = fst (currentState cb now)"
  shows "gen = generation c \<and>
         (err \<noteq> None \<and> cb' = c \<or>
          err = None \<and> state c \<noteq> StateOpen \<and> cb' = c\<lparr>counts := Counts_onRequest (counts c)\<rparr>)"
proof -
  have cs: "currentState cb now = (c, state c, generation c)"
    using assms(2) currentState_snd [of cb now] by simp
  show ?thesis
  proof (cases "state c = StateOpen")
    case True
    then show ?thesis using assms(1) by (auto simp add: beforeRequest_def cs)
  next
    case False
    show ?thesis
    proof (cases "state c = StateHalfOpen \<and> maxRequests c \<le> Requests (counts c)")
      case True
      with False show ?thesis using assms(1) by (auto simp add: beforeRequest_def cs)
    next
      case no: False
      with False have "beforeRequest cb now =
          (c\<lparr>counts := Counts_onRequest (counts c)\<rparr>, generation c, None)"
        by (simp add: beforeRequest_def cs)
      with False show ?thesis using assms(1) by auto
    qed
  qed
qed

lemma balanced_beforeRequest:
  assumes "balanced cb p k n" and "k < 2 ^ 32 - 1" and "n < 2 ^ 64 - 1"
      and "tracked_op (cb, p) (OpBeforeRequest now) = Some (cb', p')"
  shows "balanced cb' p' (k + 1) (n + 1)"
proof -
  let ?cb1 = "fst (currentState cb now)"
  have b1: "balanced ?cb1 p k (n + 1)" using assms(1,3) by (rule balanced_currentState)
  obtain c gen err where br: "beforeRequest cb now = (c, gen, err)"
    by (cases "beforeRequest cb now") auto
  note out = beforeRequest_outcome [OF br refl]
  show ?thesis
  proof (cases err)
    case None
    with br assms(4) have e: "cb' = c" "p' = gen # p" by simp_all
    from None out have "gen = generation ?cb1" "state ?cb1 \<noteq> StateOpen"
      "c = ?cb1\<lparr>counts := Counts_onRequest (counts ?cb1)\<rparr>" by simp_all
    then show ?thesis using balanced_admit [OF b1 assms(2)] e by simp
  next
    case (Some a)
    with br assms(4) have e: "cb' = c" "p' = p" by simp_all
    from Some out have "c = ?cb1" by simp
    then show ?thesis using balanced_mono [OF b1, of "k + 1" "n + 1"] e by simp
  qed
qed

lemma balanced_drop_stale:
  assumes "balanced cb p k n" and "generation cb \<noteq> before"
  shows "balanced cb (remove1 before p) k n"
  using assms by (auto simp add: balanced_def count_list_remove1 dest: notin_set_remove1)

lemma balanced_record:
  assumes "balanced cb p k n" and "generation cb \<in> set p"
  shows "state cb \<noteq> StateOpen"
    and "balanced (cb\<lparr>counts := Counts_onSuccess (counts cb)\<rparr>) (remove1 (generation cb) p) k n"
    and "balanced (cb\<lparr>counts := Counts_onFailure (counts cb)\<rparr>) (remove1 (generation cb) p) k n"
proof -
  have pos: "0 < count_list p (generation cb)"
    using assms(2) by (meson count_list_0_iff gr0I)
  have eq: "unat (TotalSuccesses (counts cb)) + unat (TotalFailures (counts cb)) +
        count_list p (generation cb) = unat (Requests (counts cb))"
    using assms(1) by (simp add: balanced_def)
  have lt: "unat (Requests (counts cb)) < (2::nat) ^ 32"
  proof -
    have "unat (Requests (counts cb)) < 2 ^ LENGTH(32)" by (rule unsigned_less)
    then show ?thesis by simp
  qed
  show "state cb \<noteq> StateOpen"
    using assms(1) pos eq by (auto simp add: balanced_def)
  have s: "unat (TotalSuccesses (counts cb) + 1) = unat (TotalSuccesses (counts cb)) + 1"
    using pos eq lt by (intro unat_Suc_u32 [of _ "2 ^ 32 - 2"]) simp_all
  have f: "unat (TotalFailures (counts cb) + 1) = unat (TotalFailures (counts cb)) + 1"
    using pos eq lt by (intro unat_Suc_u32 [of _ "2 ^ 32 - 2"]) simp_all
  have sub: "\<forall>g\<in>set (remove1 (generation cb) p). unat g \<le> unat (generation cb)"
    using assms(1) by (auto simp add: balanced_def dest: notin_set_remove1)
  show "balanced (cb\<lparr>counts := Counts_onSuccess (counts cb)\<rparr>) (remove1 (generation cb) p) k n"
    using assms pos eq s sub
    by (simp add: balanced_def Counts_onSuccess_def count_list_remove1)
  show "balanced (cb\<lparr>counts := Counts_onFailure (counts cb)\<rparr>) (remove1 (generation cb) p) k n"
    using assms pos eq f sub
    by (simp add: balanced_def Counts_onFailure_def count_list_remove1)
qed

lemma balanced_setState_any:
  assumes "balanced cb p k n" and "n < 2 ^ 64 - 1"
  shows "balanced (setState cb st now) p k (n + 1)"
proof (cases "state cb = st")
  case True
  then show ?thesis using balanced_mono [OF assms(1), of k "n + 1"] by (simp add: setState_def)
next
  case False
  then show ?thesis using assms by (intro balanced_setState) (simp_all add: balanced_def)
qed

lemma balanced_onSuccess:
  assumes "balanced cb p k n" and "generation cb \<in> set p" and "n < 2 ^ 64 - 1"
  shows "balanced (onSuccess cb (state cb) now) (remove1 (generation cb) p) k (n + 1)"
proof -
  let ?cb2 = "cb\<lparr>counts := Counts_onSuccess (counts cb)\<rparr>"
  let ?p = "remove1 (generation cb) p"
  note r = balanced_record [OF assms(1,2)]
  have keep: "balanced ?cb2 ?p k (n + 1)" using balanced_mono [OF r(2), of k "n + 1"] by simp
  have move: "balanced (setState ?cb2 StateClosed now) ?p k (n + 1)"
    using r(2) assms(3) by (rule balanced_setState_any)
  show ?thesis
    using r(1) keep move by (cases "state cb") (simp_all add: onSuccess_def Let_def)
qed

lemma balanced_onFailure:
  assumes "balanced cb p k n" and "generation cb \<in> set p" and "n < 2 ^ 64 - 1"
  shows "balanced (onFailure cb (state cb) now) (remove1 (generation cb) p) k (n + 1)"
proof -
  let ?cb2 = "cb\<lparr>counts := Counts_onFailure (counts cb)\<rparr>"
  let ?p = "remove1 (generation cb) p"
  note r = balanced_record [OF assms(1,2)]
  have keep: "balanced ?cb2 ?p k (n + 1)" using balanced_mono [OF r(3), of k "n + 1"] by simp
  have trip: "balanced (setState ?cb2 StateOpen now) ?p k (n + 1)"
    using r(3) assms(3) by (rule balanced_setState_any)
  have sub: "\<forall>g\<in>set ?p. unat g \<le> unat (generation cb)"
    using assms(1) by (auto simp add: balanced_def dest: notin_set_remove1)
  have probe: "state cb = StateHalfOpen \<Longrightarrow> balanced (setState cb StateOpen now) ?p k (n + 1)"
    using sub assms(1,3) by (intro balanced_setState) (simp_all add: balanced_def)
  show ?thesis
    using r(1) keep trip probe by (cases "state cb") (simp_all add: onFailure_def Let_def)
qed

lemma balanced_afterRequest:
  assumes "balanced cb p k n" and "n + 2 < 2 ^ 64" and "before \<in> set p"
  shows "balanced (afterRequest cb before success now) (remove1 before p) k (n + 2)"
proof -
  let ?cb1 = "fst (currentState cb now)"
  have b1: "balanced ?cb1 p k (n + 1)"
    using assms(1,2) by (intro balanced_currentState) simp_all
  have n1: "n + 1 < 2 ^ 64 - 1" using assms(2) by simp
  have cs: "currentState cb now = (?cb1, state ?cb1, generation ?cb1)"
    by (rule currentState_snd)
  have ar: "afterRequest cb before success now =
      (if generation ?cb1 \<noteq> before then ?cb1
       else if success then onSuccess ?cb1 (state ?cb1) now
       else onFailure ?cb1 (state ?cb1) now)"
    by (subst afterRequest_def, subst cs) simp
  show ?thesis
  proof (cases "generation ?cb1 = before")
    case False
    then have "balanced ?cb1 (remove1 before p) k (n + 1)"
      using b1 by (intro balanced_drop_stale)
    then show ?thesis
      using False ar balanced_mono [of ?cb1 "remove1 before p" k "n + 1" k "n + 2"] by simp
  next
    case True
    then have m: "generation ?cb1 \<in> set p" using assms(3) by simp
    show ?thesis
      using True ar balanced_onSuccess [OF b1 m n1, of now] balanced_onFailure [OF b1 m n1, of now]
      by (simp add: numeral_2_eq_2 add.assoc [symmetric] del: add_2_eq_Suc')
  qed
qed

lemma balanced_tracked_op:
  assumes "balanced cb p k n" and "k < 2 ^ 32 - 1" and "n + 2 < 2 ^ 64"
      and "tracked_op (cb, p) x = Some (cb', p')"
  shows "balanced cb' p' (k + 1) (n + 2)"
proof (cases x)
  case (OpBeforeRequest now)
  have "balanced cb' p' (k + 1) (n + 1)"
    using assms OpBeforeRequest by (intro balanced_beforeRequest [of cb p k n now]) simp_all
  then show ?thesis by (rule balanced_mono) simp_all
next
  case (OpAfterRequest before success now)
  with assms(4) have "before \<in> set p" "cb' = afterRequest cb before success now"
    "p' = remove1 before p" by (simp_all split: if_splits)
  then show ?thesis
    using balanced_afterRequest [OF assms(1,3), of before success now]
          balanced_mono [of cb' p' k "n + 2" "k + 1" "n + 2"] by simp
next
  case (OpState now)
  with assms(4) have "cb' = fst (currentState cb now)" "p' = p"
    by (simp_all add: CircuitBreaker_State_def split: prod.splits)
  then show ?thesis
    using balanced_currentState [OF assms(1), of now] assms(3)
          balanced_mono [of cb' p' k "n + 1" "k + 1" "n + 2"] by simp
next
  case OpCounts
  with assms(4) have "cb' = cb" "p' = p" by (simp_all add: CircuitBreaker_Counts_def)
  then show ?thesis using balanced_mono [OF assms(1), of "k + 1" "n + 2"] by simp
qed

lemma balanced_tracked_run:
  assumes "balanced cb p k n" and "tracked_run (cb, p) ops = Some (cb', p')"
      and "k + length ops < 2 ^ 32" and "n + 2 * length ops < 2 ^ 64"
  shows "balanced cb' p' (k + length ops) (n + 2 * length ops)"
  using assms
proof (induction ops arbitrary: cb p k n)
  case Nil
  then show ?case by simp
next
  case (Cons x xs)
  from Cons.prems(2) obtain cb1 p1 where
    s: "tracked_op (cb, p) x = Some (cb1, p1)" and r: "tracked_run (cb1, p1) xs = Some (cb', p')"
    by (auto split: option.splits)
  have b: "balanced cb1 p1 (k + 1) (n + 2)"
    using Cons.prems(1) _ _ s by (rule balanced_tracked_op) (use Cons.prems(3,4) in simp_all)
  have "balanced cb' p' (k + 1 + length xs) (n + 2 + 2 * length xs)"
    using b r by (rule Cons.IH) (use Cons.prems(3,4) in simp_all)
  then show ?case by (simp add: add.assoc add.commute)
qed

lemma NewCircuitBreaker_fresh:
  "state (NewCircuitBreaker st now) = StateClosed"
  "generation (NewCircuitBreaker st now) = 1"
  "counts (NewCircuitBreaker st now) = zero_Counts"
  by (auto simp add: NewCircuitBreaker_def toNewGeneration_def new_CircuitBreaker_def Let_def
        Counts_clear_zero split: option.splits)

lemma balanced_NewCircuitBreaker: "balanced (NewCircuitBreaker st t0) [] 0 1"
  by (simp add: balanced_def NewCircuitBreaker_fresh zero_Counts_def)

subsection \<open>The concrete runs, evaluated\<close>

lemma quota_ops_run: "run interval_breaker quota_ops = saturated_breaker"
  by (simp add: quota_ops_def interval_breaker_eq saturated_breaker_eq halfopen_breaker_eq
        breaker_defs time_defs Counts_defs Let_def defaultReadyToTrip_def
        word_less_nat_alt word_le_nat_alt)

lemma zero_breaker_eq:
  "NewCircuitBreaker zero_Settings 1 =
     \<lparr>name = [], maxRequests = 1, interval = 0, timeout = 60000000000,
      readyToTrip = defaultReadyToTrip, isSuccessful = defaultIsSuccessful,
      onStateChange = False, state = StateClosed, generation = 1, counts = zero_Counts,
      expiry = 0, notified = []\<rparr>"
  by (simp add: zero_Settings_def NewCircuitBreaker_def new_CircuitBreaker_def
        toNewGeneration_def time_defs Counts_clear_zero defaultInterval_def defaultTimeout_def
        Second_def)

lemma served_breaker_eq:
  "tracked_run (NewCircuitBreaker zero_Settings 1, []) once_each_ops = Some (served_breaker, [])"
  "counts served_breaker =
     \<lparr>Requests = 2, TotalSuccesses = 1, TotalFailures = 1,
      ConsecutiveSuccesses = 0, ConsecutiveFailures = 1\<rparr>"
  by (simp_all add: served_breaker_def once_each_ops_def zero_breaker_eq breaker_defs time_defs
        Counts_defs defaultReadyToTrip_def word_less_nat_alt)

section \<open>Construction\<close>

text \<open>
  Claim C9. For every \<open>Settings\<close> value and construction time, the breaker returned
  by \<open>NewCircuitBreaker\<close> is closed, its generation is 1, all five counters are zero,
  its interval is the configured one when that is positive and 0 otherwise, and its
  expiry is the construction time plus the interval when the interval is positive and
  the zero time otherwise.
\<close>

theorem NewCircuitBreaker_initial:
  "state (NewCircuitBreaker st now) = StateClosed \<and>
   generation (NewCircuitBreaker st now) = 1 \<and>
   counts (NewCircuitBreaker st now) = zero_Counts \<and>
   interval (NewCircuitBreaker st now) = (if Interval st \<le> 0 then 0 else Interval st) \<and>
   expiry (NewCircuitBreaker st now) =
     (if 0 < interval (NewCircuitBreaker st now)
      then Add now (interval (NewCircuitBreaker st now)) else zero_Time)"
  by (auto simp add: NewCircuitBreaker_def toNewGeneration_def new_CircuitBreaker_def Let_def
        defaultInterval_def Counts_clear_zero split: option.splits State.splits)

theorem NewCircuitBreaker_initial_witness:
  "state interval_breaker = StateClosed \<and> generation interval_breaker = 1 \<and>
   counts interval_breaker = zero_Counts \<and> expiry interval_breaker = 11"
  using NewCircuitBreaker_initial [of interval_Settings 1]
  by (simp add: interval_breaker_def interval_Settings_def zero_Settings_def Add_def)

section \<open>State transitions\<close>

text \<open>
  Claim C7. \<open>setState\<close> with the state the breaker is already in changes nothing.
  With another state it assigns the state, adds one to the generation, zeroes the five
  counters, sets the expiry (entering closed: now plus the interval when the interval
  is positive, else the zero time; entering open: now plus the timeout; entering
  half-open: the zero time) and, when the hook is set, calls it with the name, the
  previous and the new state; no other field changes. The interval of a breaker is
  never negative (\<open>NewCircuitBreaker\<close> resolves it and nothing assigns it later, see
  \<open>interval_nonnegative\<close>), which is the hypothesis.
\<close>

theorem setState_spec:
  assumes "0 \<le> interval cb"
  shows "setState cb st now =
     (if st = state cb then cb
      else cb\<lparr>state := st,
              generation := generation cb + 1,
              counts := zero_Counts,
              expiry := (case st of
                           StateClosed \<Rightarrow>
                             if 0 < interval cb then Add now (interval cb) else zero_Time
                         | StateOpen \<Rightarrow> Add now (timeout cb)
                         | StateHalfOpen \<Rightarrow> zero_Time),
              notified := (if onStateChange cb
                           then notified cb @ [(name cb, state cb, st)]
                           else notified cb)\<rparr>)"
  using assms
  by (cases st) (auto simp add: setState_def toNewGeneration_def Let_def Counts_clear_zero)

theorem setState_spec_witness:
  "0 \<le> interval interval_breaker \<and> state tripped_breaker = StateOpen \<and>
   generation tripped_breaker = 2 \<and> counts tripped_breaker = zero_Counts \<and>
   expiry tripped_breaker = 65 \<and>
   notified tripped_breaker = [(''cb'', StateClosed, StateOpen)]"
  using setState_spec [of interval_breaker StateOpen 5]
  by (simp add: tripped_breaker_def interval_breaker_eq Add_def)

section \<open>Admission\<close>

text \<open>
  Claim C4. Let \<open>cb1\<close> be the breaker after the time-driven update of
  \<open>currentState\<close>. If \<open>cb1\<close> is open, \<open>beforeRequest\<close> returns its generation
  with \<open>ErrOpenState\<close> and the breaker is \<open>cb1\<close>, counts untouched. If \<open>cb1\<close> is
  half-open with \<open>Requests\<close> at or above \<open>maxRequests\<close>, it returns the generation
  with \<open>ErrTooManyRequests\<close>, counts untouched. Otherwise it adds exactly one to
  \<open>Requests\<close> and returns the generation with no error. No other error is returned;
  \<open>afterRequest\<close> and the accessors return no error at all.
\<close>

theorem beforeRequest_spec:
  assumes "cb1 = fst (currentState cb now)"
  shows "(state cb1 = StateOpen \<longrightarrow>
            beforeRequest cb now = (cb1, generation cb1, Some ErrOpenState)) \<and>
         (state cb1 = StateHalfOpen \<and> maxRequests cb1 \<le> Requests (counts cb1) \<longrightarrow>
            beforeRequest cb now = (cb1, generation cb1, Some ErrTooManyRequests)) \<and>
         (state cb1 \<noteq> StateOpen \<and>
          \<not> (state cb1 = StateHalfOpen \<and> maxRequests cb1 \<le> Requests (counts cb1)) \<longrightarrow>
            beforeRequest cb now =
              (cb1\<lparr>counts := (counts cb1)\<lparr>Requests := Requests (counts cb1) + 1\<rparr>\<rparr>,
               generation cb1, None)) \<and>
         snd (snd (beforeRequest cb now)) \<in> {None, Some ErrOpenState, Some ErrTooManyRequests}"
proof -
  have cs: "currentState cb now = (cb1, state cb1, generation cb1)"
    using assms currentState_snd [of cb now] by simp
  show ?thesis
    by (simp add: beforeRequest_def cs Counts_onRequest_def)
qed

theorem beforeRequest_spec_witness:
  "beforeRequest tripped_breaker 10 = (tripped_breaker, 2, Some ErrOpenState) \<and>
   beforeRequest saturated_breaker 70 = (saturated_breaker, 3, Some ErrTooManyRequests) \<and>
   beforeRequest halfopen_breaker 67 = (probing_breaker, 3, None)"
  using beforeRequest_spec [of tripped_breaker tripped_breaker 10]
        beforeRequest_spec [of saturated_breaker saturated_breaker 70]
        beforeRequest_spec [of halfopen_breaker halfopen_breaker 67]
  by (simp add: currentState_def tripped_breaker_eq saturated_breaker_eq halfopen_breaker_eq
        probing_breaker_eq interval_breaker_eq time_defs zero_Counts_def word_le_nat_alt)

section \<open>Reports\<close>

text \<open>
  Claim C5. In a half-open breaker, a success report with the current generation
  records the success (one more total and consecutive success, consecutive failures
  zeroed); if the consecutive successes are then at or above \<open>maxRequests\<close> the
  breaker goes to closed through \<open>setState\<close>, and otherwise it stays as it is with
  the new counts. A failure report with the current generation is exactly
  \<open>setState\<close> to open: the breaker is open, its counts are all zero (the failure is
  recorded nowhere), the generation is one more and the expiry is now plus the timeout.
\<close>

theorem halfopen_report:
  assumes "state cb = StateHalfOpen"
      and "c' = (counts cb)\<lparr>TotalSuccesses := TotalSuccesses (counts cb) + 1,
                            ConsecutiveSuccesses := ConsecutiveSuccesses (counts cb) + 1,
                            ConsecutiveFailures := 0\<rparr>"
  shows "(ConsecutiveSuccesses c' < maxRequests cb \<longrightarrow>
            afterRequest cb (generation cb) True now = cb\<lparr>counts := c'\<rparr>) \<and>
         (maxRequests cb \<le> ConsecutiveSuccesses c' \<longrightarrow>
            afterRequest cb (generation cb) True now = setState (cb\<lparr>counts := c'\<rparr>) StateClosed now \<and>
            state (afterRequest cb (generation cb) True now) = StateClosed) \<and>
         afterRequest cb (generation cb) False now = setState cb StateOpen now \<and>
         state (afterRequest cb (generation cb) False now) = StateOpen \<and>
         counts (afterRequest cb (generation cb) False now) = zero_Counts \<and>
         generation (afterRequest cb (generation cb) False now) = generation cb + 1 \<and>
         expiry (afterRequest cb (generation cb) False now) = Add now (timeout cb)"
  using assms
  by (auto simp add: afterRequest_def currentState_HalfOpen onSuccess_def onFailure_def
        Counts_onSuccess_def setState_def toNewGeneration_def Let_def Counts_clear_zero)

theorem halfopen_report_witness:
  "state probing_breaker = StateHalfOpen \<and>
   afterRequest probing_breaker 3 True 70 =
     probing_breaker\<lparr>counts := \<lparr>Requests = 1, TotalSuccesses = 1, TotalFailures = 0,
                                 ConsecutiveSuccesses = 1, ConsecutiveFailures = 0\<rparr>\<rparr> \<and>
   state (afterRequest (afterRequest probing_breaker 3 True 70) 3 True 71) = StateClosed \<and>
   state (afterRequest probing_breaker 3 False 70) = StateOpen \<and>
   counts (afterRequest probing_breaker 3 False 70) = zero_Counts \<and>
   expiry (afterRequest probing_breaker 3 False 70) = 130"
proof -
  let ?c1 = "\<lparr>Requests = 1, TotalSuccesses = 1, TotalFailures = 0,
              ConsecutiveSuccesses = 1, ConsecutiveFailures = 0\<rparr>"
  have st: "state probing_breaker = StateHalfOpen"
    by (simp add: probing_breaker_eq halfopen_breaker_eq)
  have gen: "generation probing_breaker = 3" and mx: "maxRequests probing_breaker = 2"
    and cnt: "counts probing_breaker = zero_Counts\<lparr>Requests := 1\<rparr>"
    and tmo: "timeout probing_breaker = 60"
    by (simp_all add: probing_breaker_eq halfopen_breaker_eq interval_breaker_eq)
  have first: "afterRequest probing_breaker 3 True 70 = probing_breaker\<lparr>counts := ?c1\<rparr>"
    and fail: "state (afterRequest probing_breaker 3 False 70) = StateOpen"
              "counts (afterRequest probing_breaker 3 False 70) = zero_Counts"
              "expiry (afterRequest probing_breaker 3 False 70) = 130"
    using halfopen_report [of probing_breaker _ 70, OF st refl]
    by (auto simp add: gen mx cnt tmo zero_Counts_def word_less_nat_alt word_le_nat_alt Add_def)
  have "state (afterRequest (probing_breaker\<lparr>counts := ?c1\<rparr>) 3 True 71) = StateClosed"
    using halfopen_report [of "probing_breaker\<lparr>counts := ?c1\<rparr>" _ 71, OF _ refl]
    by (auto simp add: st gen mx word_le_nat_alt)
  with st first fail show ?thesis by simp
qed

text \<open>
  Claim C1, as stated, fails: \<open>afterRequest\<close> runs \<open>currentState\<close> before it
  compares the token, and that step alone may clear the counts (a closed breaker whose
  interval has expired) or change the state (an open breaker whose timeout has
  expired). The rolled-over breaker is in generation 2 and holds one request; the
  report of a request admitted in generation 1, made at instant 40, finds generation
  3, is discarded, and leaves the counts zeroed and the generation changed. On the
  tripped breaker, in generation 2, the same stale report at instant 66 leaves the
  state half-open. In both the token differs from the generation before the call and
  from the one \<open>currentState\<close> reports.
\<close>

theorem stale_report_changes_counts:
  "generation rolled_breaker \<noteq> 1 \<and>
   generation (fst (currentState rolled_breaker 40)) \<noteq> 1 \<and>
   counts (afterRequest rolled_breaker 1 True 40) \<noteq> counts rolled_breaker \<and>
   generation (afterRequest rolled_breaker 1 True 40) \<noteq> generation rolled_breaker \<and>
   generation tripped_breaker \<noteq> 1 \<and>
   generation (fst (currentState tripped_breaker 66)) \<noteq> 1 \<and>
   state (afterRequest tripped_breaker 1 True 66) \<noteq> state tripped_breaker"
  by (simp add: rolled_breaker_eq tripped_breaker_eq interval_breaker_eq breaker_defs
        time_defs Counts_defs)

text \<open>
  Claim C1, amended. When the token differs from the generation that \<open>currentState\<close>
  reports at report time, \<open>afterRequest\<close> does nothing beyond that time-driven step:
  the breaker is the one \<open>currentState\<close> leaves. Where no time-driven step is due
  (half-open; closed with no expiry or an expiry not before now; open with an expiry
  not before now), the breaker is unchanged in every field.
\<close>

theorem stale_report_discarded:
  assumes "generation (fst (currentState cb now)) \<noteq> before"
  shows "afterRequest cb before success now = fst (currentState cb now) \<and>
         (state cb = StateHalfOpen \<or>
          state cb = StateClosed \<and> (IsZero (expiry cb) \<or> \<not> Before (expiry cb) now) \<or>
          state cb = StateOpen \<and> \<not> Before (expiry cb) now
          \<longrightarrow> afterRequest cb before success now = cb)"
proof -
  have "afterRequest cb before success now = fst (currentState cb now)"
  proof -
    obtain cb1 where cs: "currentState cb now = (cb1, state cb1, generation cb1)"
      using currentState_snd [of cb now] by blast
    with assms show ?thesis by (simp add: afterRequest_def)
  qed
  moreover have "state cb = StateHalfOpen \<or>
          state cb = StateClosed \<and> (IsZero (expiry cb) \<or> \<not> Before (expiry cb) now) \<or>
          state cb = StateOpen \<and> \<not> Before (expiry cb) now
          \<Longrightarrow> fst (currentState cb now) = cb"
    by (auto simp add: currentState_def)
  ultimately show ?thesis by simp
qed

theorem stale_report_discarded_witness:
  "generation (fst (currentState admitted_breaker 5)) \<noteq> 7 \<and>
   afterRequest admitted_breaker 7 True 5 = admitted_breaker \<and>
   generation (fst (currentState admitted_breaker 20)) \<noteq> 1 \<and>
   afterRequest admitted_breaker 1 False 20 = fst (currentState admitted_breaker 20)"
  using stale_report_discarded [of admitted_breaker 5 7 True]
        stale_report_discarded [of admitted_breaker 20 1 False]
  by (simp add: admitted_breaker_eq interval_breaker_eq currentState_def toNewGeneration_def
        time_defs)

section \<open>Accessors\<close>

text \<open>
  Claim C10. On a closed breaker whose interval expiry is set and before now,
  \<open>Counts\<close> returns the stored counters and the breaker unchanged, while \<open>State\<close>,
  \<open>beforeRequest\<close> and \<open>afterRequest\<close> at that instant all start from the new
  generation: \<open>State\<close> leaves the rolled-over breaker, \<open>beforeRequest\<close> admits
  into zeroed counts under the new generation, and \<open>afterRequest\<close> compares the
  token with the new generation and reports into the rolled-over breaker.
\<close>

theorem Counts_skips_rollover:
  assumes "state cb = StateClosed" and "\<not> IsZero (expiry cb)" and "Before (expiry cb) now"
  shows "CircuitBreaker_Counts cb = (cb, counts cb) \<and>
         CircuitBreaker_State cb now = (toNewGeneration cb now, StateClosed) \<and>
         beforeRequest cb now =
           ((toNewGeneration cb now)\<lparr>counts := zero_Counts\<lparr>Requests := 1\<rparr>\<rparr>,
            generation cb + 1, None) \<and>
         afterRequest cb before success now =
           (if generation cb + 1 \<noteq> before then toNewGeneration cb now
            else if success then onSuccess (toNewGeneration cb now) StateClosed now
            else onFailure (toNewGeneration cb now) StateClosed now) \<and>
         counts (toNewGeneration cb now) = zero_Counts \<and>
         generation (toNewGeneration cb now) = generation cb + 1"
proof -
  have tg: "state (toNewGeneration cb now) = StateClosed"
           "generation (toNewGeneration cb now) = generation cb + 1"
           "counts (toNewGeneration cb now) = zero_Counts"
    using assms(1) by (simp_all add: toNewGeneration_def Let_def Counts_clear_zero)
  have cs: "currentState cb now = (toNewGeneration cb now, StateClosed, generation cb + 1)"
    using assms tg by (simp add: currentState_def Let_def)
  show ?thesis
    by (simp add: CircuitBreaker_Counts_def CircuitBreaker_State_def beforeRequest_def
          afterRequest_def cs tg Counts_onRequest_def zero_Counts_def)
qed

theorem Counts_skips_rollover_witness:
  "state admitted_breaker = StateClosed \<and> \<not> IsZero (expiry admitted_breaker) \<and>
   Before (expiry admitted_breaker) 20 \<and>
   CircuitBreaker_Counts admitted_breaker = (admitted_breaker, zero_Counts\<lparr>Requests := 1\<rparr>) \<and>
   counts (fst (CircuitBreaker_State admitted_breaker 20)) = zero_Counts \<and>
   counts (fst (beforeRequest admitted_breaker 20)) = zero_Counts\<lparr>Requests := 1\<rparr> \<and>
   counts (afterRequest admitted_breaker 1 True 20) = zero_Counts"
  using Counts_skips_rollover [of admitted_breaker 20 1 True]
  by (simp add: admitted_breaker_eq interval_breaker_eq time_defs)

section \<open>The open state\<close>

text \<open>
  Claim C3, as stated, fails at the instant \<open>T + timeout\<close> itself: \<open>currentState\<close>
  leaves the open state only when the expiry is strictly before now. The breaker
  tripped at instant 5 with timeout 60 rejects the admission attempt at instant 65
  with \<open>ErrOpenState\<close> and stays open.
\<close>

theorem open_at_timeout_instant:
  "Add 5 (timeout interval_breaker) \<le> 65 \<and>
   beforeRequest tripped_breaker 65 = (tripped_breaker, 2, Some ErrOpenState) \<and>
   state (fst (beforeRequest tripped_breaker 65)) \<noteq> StateHalfOpen"
  by (simp add: tripped_breaker_eq interval_breaker_eq beforeRequest_def currentState_def
        time_defs)

text \<open>
  Claim C3, amended. After a transition to open at time \<open>T\<close> the expiry is
  \<open>T + timeout\<close>; no operation at or before that instant changes the breaker, and
  every admission attempt at or before it is rejected with \<open>ErrOpenState\<close>. An
  admission attempt strictly after it first moves the breaker to half-open through
  \<open>setState\<close>, and the admission is decided on that half-open breaker.
\<close>

theorem open_until_timeout:
  assumes "state cb0 \<noteq> StateOpen"
      and "cb = setState cb0 StateOpen T"
      and "list_all (op_not_after (Add T (timeout cb0))) ops"
  shows "state cb = StateOpen \<and> expiry cb = Add T (timeout cb0) \<and>
         run cb ops = cb \<and>
         (now \<le> Add T (timeout cb0) \<longrightarrow>
            beforeRequest cb now = (cb, generation cb, Some ErrOpenState)) \<and>
         (Add T (timeout cb0) < now \<longrightarrow>
            fst (currentState cb now) = setState cb StateHalfOpen now \<and>
            state (setState cb StateHalfOpen now) = StateHalfOpen \<and>
            beforeRequest cb now = beforeRequest (setState cb StateHalfOpen now) now)"
proof -
  have st: "state cb = StateOpen" and ex: "expiry cb = Add T (timeout cb0)"
    using assms(1,2) setState_Open(1,2) by simp_all
  have r: "run cb ops = cb"
    using open_unexpired_run [of cb ops] st ex assms(3) by (simp add: list_all_iff)
  have early: "now \<le> Add T (timeout cb0) \<Longrightarrow>
      beforeRequest cb now = (cb, generation cb, Some ErrOpenState)"
    using st ex by (simp add: beforeRequest_def currentState_def Before_def)
  have late: "Add T (timeout cb0) < now \<Longrightarrow>
      currentState cb now =
        (setState cb StateHalfOpen now, StateHalfOpen, generation (setState cb StateHalfOpen now))"
    using st ex by (simp add: currentState_def Before_def state_setState Let_def)
  have late2: "Add T (timeout cb0) < now \<Longrightarrow>
      beforeRequest cb now = beforeRequest (setState cb StateHalfOpen now) now"
    using late by (simp add: beforeRequest_def currentState_HalfOpen state_setState)
  show ?thesis
    using st ex r early late late2 by (simp add: state_setState)
qed

theorem open_until_timeout_witness:
  "state interval_breaker \<noteq> StateOpen \<and>
   list_all (op_not_after (Add 5 (timeout interval_breaker)))
     [OpState 10, OpAfterRequest 1 False 20, OpBeforeRequest 65, OpCounts] \<and>
   run tripped_breaker [OpState 10, OpAfterRequest 1 False 20, OpBeforeRequest 65, OpCounts]
     = tripped_breaker \<and>
   beforeRequest tripped_breaker 65 = (tripped_breaker, 2, Some ErrOpenState) \<and>
   beforeRequest tripped_breaker 66 = (probing_breaker, 3, None)"
proof -
  let ?ops = "[OpState 10, OpAfterRequest 1 False 20, OpBeforeRequest 65, OpCounts]"
  have a: "state interval_breaker \<noteq> StateOpen" by (simp add: interval_breaker_eq)
  have b: "list_all (op_not_after (Add 5 (timeout interval_breaker))) ?ops"
    by (simp add: interval_breaker_eq Add_def)
  have h: "halfopen_breaker = setState tripped_breaker StateHalfOpen 66"
    by (simp add: halfopen_breaker_def CircuitBreaker_State_def currentState_def
          tripped_breaker_eq interval_breaker_eq time_defs Let_def)
  have p: "beforeRequest halfopen_breaker 66 = (probing_breaker, 3, None)"
    by (simp add: probing_breaker_eq halfopen_breaker_eq interval_breaker_eq beforeRequest_def
          currentState_def Counts_defs word_le_nat_alt)
  have g: "generation tripped_breaker = 2" by (simp add: tripped_breaker_eq)
  show ?thesis
    using open_until_timeout [OF a tripped_breaker_def b, of 65]
          open_until_timeout [OF a tripped_breaker_def b, of 66] a b
    by (simp add: Add_def interval_breaker_eq g h [symmetric] p)
qed

section \<open>Probes\<close>

text \<open>
  Claim C8. In every breaker reached from \<open>NewCircuitBreaker\<close> by any sequence of
  locked operations (reports with any token) that is half-open, \<open>Requests\<close> is at
  most \<open>maxRequests\<close>. Once it has reached \<open>maxRequests\<close>, \<open>beforeRequest\<close> is
  rejected with \<open>ErrTooManyRequests\<close> and leaves the breaker as it is, and any
  operation after which the breaker is still half-open leaves \<open>Requests\<close> and
  \<open>maxRequests\<close> unchanged, so the rejection lasts until a report moves the breaker
  out of half-open.
\<close>

theorem halfopen_quota:
  assumes "cb = run (NewCircuitBreaker st t0) ops" and "state cb = StateHalfOpen"
  shows "Requests (counts cb) \<le> maxRequests cb \<and>
         (Requests (counts cb) = maxRequests cb \<longrightarrow>
            beforeRequest cb now = (cb, generation cb, Some ErrTooManyRequests) \<and>
            (state (apply_op cb x) = StateHalfOpen \<longrightarrow>
               Requests (counts (apply_op cb x)) = Requests (counts cb) \<and>
               maxRequests (apply_op cb x) = maxRequests cb))"
proof -
  have "halfopen_within_quota cb"
    using assms(1) quota_run [OF quota_NewCircuitBreaker] by simp
  then have le: "Requests (counts cb) \<le> maxRequests cb"
    using assms(2) by (simp add: halfopen_within_quota_def)
  have rej: "Requests (counts cb) = maxRequests cb \<Longrightarrow>
      beforeRequest cb now = (cb, generation cb, Some ErrTooManyRequests)"
    using assms(2) by (simp add: beforeRequest_def currentState_HalfOpen)
  show ?thesis
    using le rej saturated_apply_op [OF assms(2), of x] by simp
qed

theorem halfopen_quota_witness:
  "saturated_breaker = run (NewCircuitBreaker interval_Settings 1) quota_ops \<and>
   state saturated_breaker = StateHalfOpen \<and>
   Requests (counts saturated_breaker) = 2 \<and> maxRequests saturated_breaker = 2 \<and>
   beforeRequest saturated_breaker 70 = (saturated_breaker, 3, Some ErrTooManyRequests) \<and>
   Requests (counts (apply_op saturated_breaker (OpAfterRequest 3 True 71))) = 2"
proof -
  have r: "saturated_breaker = run (NewCircuitBreaker interval_Settings 1) quota_ops"
    using quota_ops_run by (simp add: interval_breaker_def)
  have s: "state saturated_breaker = StateHalfOpen"
    and q: "Requests (counts saturated_breaker) = 2" "maxRequests saturated_breaker = 2"
    and g: "generation saturated_breaker = 3"
    by (simp_all add: saturated_breaker_eq halfopen_breaker_eq interval_breaker_eq
          zero_Counts_def)
  have k: "state (apply_op saturated_breaker (OpAfterRequest 3 True 71)) = StateHalfOpen"
    by (simp add: saturated_breaker_eq halfopen_breaker_eq interval_breaker_eq breaker_defs
          Counts_defs word_le_nat_alt)
  show ?thesis
    using halfopen_quota [OF r s, of 70 "OpAfterRequest 3 True 71"] r s q g k by simp
qed

section \<open>Tripping\<close>

text \<open>
  Claim C6. A breaker constructed with nil \<open>ReadyToTrip\<close> uses
  \<open>defaultReadyToTrip\<close>, which holds exactly when \<open>ConsecutiveFailures\<close> exceeds 5.
  On a closed breaker with that policy and no interval rollover due, a failure report
  with the current generation records the failure and goes to open exactly when the
  recorded counts have more than 5 consecutive failures. With default settings (no
  interval, default policies), five requests that fail, admitted and reported through
  \<open>Execute\<close> at any instants, leave the breaker closed with 5 consecutive
  failures, and a sixth failing request leaves it open.
\<close>

theorem default_trips_on_sixth:
  assumes "ReadyToTrip st = None" and "IsSuccessful st = None" and "Interval st \<le> 0"
      and "length rs = 5" and "list_all (\<lambda>r. fails (fst r)) rs" and "fails req"
  shows "readyToTrip (NewCircuitBreaker st start) = defaultReadyToTrip \<and>
         defaultReadyToTrip c = (5 < ConsecutiveFailures c) \<and>
         (state cb = StateClosed \<and> (IsZero (expiry cb) \<or> \<not> Before (expiry cb) now) \<and>
          readyToTrip cb = readyToTrip (NewCircuitBreaker st start) \<longrightarrow>
            afterRequest cb (generation cb) False now =
              (if 5 < ConsecutiveFailures (Counts_onFailure (counts cb))
               then setState (cb\<lparr>counts := Counts_onFailure (counts cb)\<rparr>) StateOpen now
               else cb\<lparr>counts := Counts_onFailure (counts cb)\<rparr>)) \<and>
         state (execute_all (NewCircuitBreaker st start) rs) = StateClosed \<and>
         ConsecutiveFailures (counts (execute_all (NewCircuitBreaker st start) rs)) = 5 \<and>
         state (execute_all (NewCircuitBreaker st start) (rs @ [(req, now, now')])) = StateOpen"
proof -
  let ?cb0 = "NewCircuitBreaker st start"
  let ?cb5 = "execute_all ?cb0 rs"
  have d0: "default_closed ?cb0" and c0: "counts ?cb0 = zero_Counts"
    using assms(1-3) by (rule default_closed_NewCircuitBreaker)+
  have rt: "readyToTrip ?cb0 = defaultReadyToTrip"
    using d0 by (simp add: default_closed_def)
  have z: "unat (ConsecutiveFailures (counts ?cb0)) = 0"
    by (simp add: c0 zero_Counts_def)
  have f5: "\<forall>r\<in>set rs. fails (fst r)"
    using assms(5) by (simp add: list_all_iff)
  have d: "default_closed ?cb5" and u: "unat (ConsecutiveFailures (counts ?cb5)) = 5"
    using failures_stay_closed [OF d0 f5] z assms(4) by simp_all
  have cf: "ConsecutiveFailures (counts ?cb5) = 5"
  proof -
    have "ConsecutiveFailures (counts ?cb5) = of_nat (unat (ConsecutiveFailures (counts ?cb5)))"
      by simp
    then show ?thesis by (simp add: u)
  qed
  have rep: "state cb = StateClosed \<and> (IsZero (expiry cb) \<or> \<not> Before (expiry cb) now) \<and>
          readyToTrip cb = readyToTrip ?cb0 \<longrightarrow>
            afterRequest cb (generation cb) False now =
              (if 5 < ConsecutiveFailures (Counts_onFailure (counts cb))
               then setState (cb\<lparr>counts := Counts_onFailure (counts cb)\<rparr>) StateOpen now
               else cb\<lparr>counts := Counts_onFailure (counts cb)\<rparr>)"
    using closed_failure_report [of cb now] by (simp add: rt defaultReadyToTrip_def)
  have app: "execute_all b (xs @ [(req, now, now')]) = fst (Execute (execute_all b xs) req now now')"
    for b :: CircuitBreaker and xs
    by (induction xs arbitrary: b) auto
  have six: "state (fst (Execute ?cb5 req now now')) = StateOpen"
    using Execute_fails [OF d assms(6), of now now'] cf
    by (simp add: state_setState word_less_nat_alt)
  have five: "state ?cb5 = StateClosed" using d by (simp add: default_closed_def)
  show ?thesis
    using rt rep five cf six app [of ?cb0 rs] by (simp add: defaultReadyToTrip_def)
qed

theorem default_trips_on_sixth_witness:
  "ReadyToTrip zero_Settings = None \<and> IsSuccessful zero_Settings = None \<and>
   Interval zero_Settings \<le> 0 \<and> length five_failures = 5 \<and>
   list_all (\<lambda>r. fails (fst r)) five_failures \<and> fails (Panics ''panic'' :: unit outcome) \<and>
   afterRequest (NewCircuitBreaker zero_Settings 1) 1 False 12 =
     (NewCircuitBreaker zero_Settings 1)
       \<lparr>counts := zero_Counts\<lparr>TotalFailures := 1, ConsecutiveFailures := 1\<rparr>\<rparr> \<and>
   state (execute_all (NewCircuitBreaker zero_Settings 1) five_failures) = StateClosed \<and>
   ConsecutiveFailures (counts (execute_all (NewCircuitBreaker zero_Settings 1) five_failures)) = 5 \<and>
   state (execute_all (NewCircuitBreaker zero_Settings 1)
            (five_failures @ [(Panics ''panic'', 12, 13)])) = StateOpen"
proof -
  have a: "ReadyToTrip zero_Settings = None" "IsSuccessful zero_Settings = None"
    "Interval zero_Settings \<le> 0"
    by (simp_all add: zero_Settings_def)
  have b: "length five_failures = 5" "list_all (\<lambda>r. fails (fst r)) five_failures"
    by (simp_all add: five_failures_def)
  have c: "fails (Panics ''panic'' :: unit outcome)" by simp
  have d: "state (NewCircuitBreaker zero_Settings 1) = StateClosed"
    "IsZero (expiry (NewCircuitBreaker zero_Settings 1))"
    "generation (NewCircuitBreaker zero_Settings 1) = 1"
    "counts (NewCircuitBreaker zero_Settings 1) = zero_Counts"
    by (simp_all add: zero_breaker_eq time_defs)
  show ?thesis
    using default_trips_on_sixth
            [OF a b c, where start = 1 and cb = "NewCircuitBreaker zero_Settings 1"
               and now = 12 and now' = 13] a b c d
    by (simp add: Counts_onFailure_def zero_Counts_def word_less_nat_alt)
qed

section \<open>The counts\<close>

text \<open>
  Claim C2, as stated, fails: the reporter closure returned by \<open>Allow\<close> may be
  called again, and every call with the current generation records an outcome. One
  admission on a default breaker followed by two calls of its reporter with success
  leaves \<open>TotalSuccesses = 2\<close> and \<open>Requests = 1\<close>.
\<close>

theorem reported_twice_exceeds:
  "counts reported_twice =
     \<lparr>Requests = 1, TotalSuccesses = 2, TotalFailures = 0,
      ConsecutiveSuccesses = 2, ConsecutiveFailures = 0\<rparr> \<and>
   \<not> unat (TotalSuccesses (counts reported_twice)) + unat (TotalFailures (counts reported_twice))
       \<le> unat (Requests (counts reported_twice)) \<and>
   \<not> TotalSuccesses (counts reported_twice) + TotalFailures (counts reported_twice)
       \<le> Requests (counts reported_twice)"
  by (simp add: reported_twice_def Allow_def zero_breaker_eq breaker_defs time_defs Counts_defs
        word_le_nat_alt)

text \<open>
  Claim C2, amended. In every breaker reached from \<open>NewCircuitBreaker\<close> by fewer than
  \<open>2 ^ 32\<close> locked operations in which every admitted request is reported at most
  once, \<open>TotalSuccesses + TotalFailures \<le> Requests\<close> (as natural numbers, the 32-bit
  counters not having wrapped around). Recording a success zeroes
  \<open>ConsecutiveFailures\<close> and adds one to \<open>ConsecutiveSuccesses\<close>; recording a
  failure zeroes \<open>ConsecutiveSuccesses\<close> and adds one to \<open>ConsecutiveFailures\<close>.
\<close>

theorem counts_bounded_when_reported_once:
  assumes "tracked_run (NewCircuitBreaker st t0, []) ops = Some (cb, pending)"
      and "length ops < 2 ^ 32"
  shows "unat (TotalSuccesses (counts cb)) + unat (TotalFailures (counts cb))
           \<le> unat (Requests (counts cb)) \<and>
         ConsecutiveFailures (Counts_onSuccess c) = 0 \<and>
         ConsecutiveSuccesses (Counts_onSuccess c) = ConsecutiveSuccesses c + 1 \<and>
         ConsecutiveSuccesses (Counts_onFailure c) = 0 \<and>
         ConsecutiveFailures (Counts_onFailure c) = ConsecutiveFailures c + 1"
proof -
  have "(1::nat) + 2 * length ops < 2 ^ 64" using assms(2) by simp
  then have "balanced cb pending (0 + length ops) (1 + 2 * length ops)"
    using balanced_NewCircuitBreaker assms(1) assms(2)
    by (intro balanced_tracked_run [of "NewCircuitBreaker st t0" "[]"]) simp_all
  then have "unat (TotalSuccesses (counts cb)) + unat (TotalFailures (counts cb))
           \<le> unat (Requests (counts cb))"
    by (simp add: balanced_def)
  then show ?thesis by (simp add: Counts_onSuccess_def Counts_onFailure_def)
qed

theorem counts_bounded_when_reported_once_witness:
  "tracked_run (NewCircuitBreaker zero_Settings 1, []) once_each_ops = Some (served_breaker, []) \<and>
   length once_each_ops < 2 ^ 32 \<and>
   unat (TotalSuccesses (counts served_breaker)) + unat (TotalFailures (counts served_breaker))
     \<le> unat (Requests (counts served_breaker)) \<and>
   Requests (counts served_breaker) = 2"
proof -
  have l: "length once_each_ops < 2 ^ 32" by (simp add: once_each_ops_def)
  show ?thesis
    using counts_bounded_when_reported_once [OF served_breaker_eq(1) l] l served_breaker_eq
    by simp
qed

end
